theory Spec2Isabelle
  imports Complex_Main "HOL-Library.Word" "HOL-Library.AList"
begin

unbundle bit_operations_syntax

section \<open>Data structures of proxy.py\<close>

text \<open>
  The dataclass \<open>RegSpec\<close>. Python integers are unbounded, hence \<open>int\<close>. The field
  \<open>id\<close> is called \<open>id_field\<close> here, since \<open>id\<close> is the identity function of HOL.
  The floats \<open>multiply\<close> and \<open>offset\<close> are kept as the real numbers they denote; no
  float arithmetic is performed on them in this theory.
\<close>

record RegSpec =
  id_field :: string
  address :: int
  count :: int
  func :: string
  dtype :: string
  byte_order :: string
  multiply :: real
  offset :: real
  measurement :: string
  field_name :: string
  tags :: "(string \<times> string) list"

text \<open>
  The handle of the transport client (\<open>PySolarmanV5Async\<close>) is opaque: the state only
  records whether one was created.
\<close>

datatype client = Client

text \<open>
  A Python dict that is iterated is an association list in insertion order with distinct
  keys: \<open>d[k] = v\<close> is \<open>AList.update k v d\<close> (in place when the key is there, appended
  otherwise) and \<open>d.get(k)\<close> is \<open>map_of d k\<close>.
\<close>

type_synonym snapshot = "(string \<times> (string \<times> real) list) list"

text \<open>
  The dataclass \<open>AppState\<close>, without its lock. Timestamps of the event loop are floats in
  the source and reals here: the code compares them and adds the cooldown to them.
\<close>

record AppState =
  regs :: "RegSpec list"
  cache :: snapshot
  cache_ts :: real
  sol :: "client option"
  breaker_failures :: int
  breaker_open_until :: real

text \<open>The two circuit-breaker settings read from the environment.\<close>

record config =
  CB_FAIL_LIMIT :: int
  CB_OPEN_SECONDS :: real

section \<open>combine\_words\<close>

definition combine_words :: "int list \<Rightarrow> string \<Rightarrow> string \<Rightarrow> int" where
  "combine_words words dtype' byte_order' =
    (if length words = 1 then
       (let val = (words ! 0) AND 0xFFFF in
        if dtype' = ''int16'' \<and> val AND 0x8000 \<noteq> 0 then val - 0x10000 else val)
     else if length words = 2 then
       (let w0 = (words ! 0) AND 0xFFFF;
            w1 = (words ! 1) AND 0xFFFF;
            (hi, lo) = (if byte_order' = ''CDAB'' then (w1, w0) else (w0, w1));
            val = push_bit 16 hi OR lo
        in if dtype' = ''int32'' \<and> val AND 0x80000000 \<noteq> 0 then val - 0x100000000 else val)
     else foldl (\<lambda>acc w. push_bit 16 acc OR (w AND 0xFFFF)) 0 words)"

section \<open>apply\_scale\_offset and rounding\<close>

text \<open>
  \<open>apply_scale_offset\<close> computes \<open>float(raw) * float(multiply) + float(offset)\<close>. The
  conversion \<open>float(raw)\<close> of a Python integer raises \<open>OverflowError\<close> when the integer
  rounds to a magnitude of \<open>2^1024\<close> or more, that is from \<open>2^1024 - 2^970\<close> on. The
  floating-point product and sum, and \<open>round(val, ROUND_DECIMALS)\<close>, are not computed
  here: they are the two functions of \<open>float_ops\<close>, taken as parameters.
\<close>

text \<open>
  The exceptions of a cycle: the five classes the \<open>except\<close> clause of \<open>refresh_cache\<close>
  names, the \<open>OverflowError\<close> of \<open>float(raw)\<close>, and \<open>OtherException\<close> for an exception
  of any other class that a call to the transport may raise.
\<close>

datatype exn =
  V5FrameError | NoSocketAvailableError | TimeoutError | KeyError | OSError
  | OverflowError | OtherException

record float_ops =
  scale :: "int \<Rightarrow> real \<Rightarrow> real \<Rightarrow> real"
  round_decimals :: "real \<Rightarrow> real"

definition float_overflows :: "int \<Rightarrow> bool" where
  "float_overflows raw \<longleftrightarrow> 2 ^ 1024 - 2 ^ 970 \<le> \<bar>raw\<bar>"

definition apply_scale_offset :: "float_ops \<Rightarrow> int \<Rightarrow> real \<Rightarrow> real \<Rightarrow> exn + real" where
  "apply_scale_offset fo raw multiply' offset' =
     (if float_overflows raw then Inl OverflowError else Inr (scale fo raw multiply' offset'))"

section \<open>merge\_ranges\<close>

text \<open>
  A plan is the tuple \<open>(start, qty, group)\<close>. \<open>extend_group\<close> is the inner \<open>while\<close> loop
  of \<open>merge_ranges\<close>: it walks the specs that follow the head of the group and returns
  the final \<open>end\<close>, the group and the specs not consumed. \<open>merge_loop\<close> is the outer loop
  over the sorted list. \<open>sorted(specs, key=...)\<close> is a stable sort, as \<open>sort_key\<close> is.
\<close>

type_synonym plan = "int \<times> int \<times> RegSpec list"

definition MAX_QTY :: int where
  "MAX_QTY = 120"

fun extend_group :: "int \<Rightarrow> int \<Rightarrow> RegSpec list \<Rightarrow> RegSpec list \<Rightarrow> int \<times> RegSpec list \<times> RegSpec list" where
  "extend_group start end' group' [] = (end', group', [])"
| "extend_group start end' group' (nxt # rest) =
     (let nxt_end = address nxt + count nxt - 1 in
      if address nxt \<le> end' + 2 \<and> (nxt_end - start + 1) \<le> MAX_QTY
      then extend_group start (max end' nxt_end) (group' @ [nxt]) rest
      else (end', group', nxt # rest))"

function merge_loop :: "RegSpec list \<Rightarrow> plan list" where
  "merge_loop [] = []"
| "merge_loop (s # rest) =
     (case extend_group (address s) (address s + count s - 1) [s] rest of
        (end', group', rest') \<Rightarrow> (address s, end' - address s + 1, group') # merge_loop rest')"
  by pat_completeness auto
termination
proof (relation "measure length")
  show "wf (measure length)" by simp
next
  fix s :: RegSpec and rest :: "RegSpec list" and end' :: int
    and y :: "RegSpec list \<times> RegSpec list" and group' rest' :: "RegSpec list"
  assume "(end', y) = extend_group (address s) (address s + count s - 1) [s] rest"
    and "(group', rest') = y"
  then have eq: "extend_group (address s) (address s + count s - 1) [s] rest = (end', group', rest')"
    by simp
  have "length (snd (snd (extend_group st e g xs))) \<le> length xs" for st e g xs
    by (induction xs arbitrary: e g) (auto simp add: Let_def intro: le_SucI)
  from this [of "address s" "address s + count s - 1" "[s]" rest] eq
  have "length rest' \<le> length rest" by simp
  then show "(rest', s # rest) \<in> measure length" by simp
qed

definition merge_ranges :: "RegSpec list \<Rightarrow> plan list" where
  "merge_ranges specs = merge_loop (sort_key address specs)"

section \<open>The transport and read\_plan\<close>

text \<open>
  The transport client is external. A call to it is a value of \<open>call\<close>; the device is a
  function from a call and the device's state to the call's result (the words read, or
  the exception raised, a timeout of \<open>asyncio.wait_for\<close> included) and the device's next
  state. The world is the device's state with the trace of the calls made so far.
  \<open>caught\<close> is the tuple of exception classes of the \<open>except\<close> clause of \<open>refresh_cache\<close>.
\<close>

fun caught :: "exn \<Rightarrow> bool" where
  "caught V5FrameError = True"
| "caught NoSocketAvailableError = True"
| "caught TimeoutError = True"
| "caught KeyError = True"
| "caught OSError = True"
| "caught OverflowError = False"
| "caught OtherException = False"

datatype call = Connect | ReadHolding int int | ReadInput int int

type_synonym 'd transport = "call \<Rightarrow> 'd \<Rightarrow> (exn + int list) \<times> 'd"

record 'd world =
  device :: 'd
  trace :: "call list"

definition perform :: "'d transport \<Rightarrow> call \<Rightarrow> 'd world \<Rightarrow> (exn + int list) \<times> 'd world" where
  "perform tr c w =
     (case tr c (device w) of (r, d') \<Rightarrow> (r, \<lparr>device = d', trace = trace w @ [c]\<rparr>))"

text \<open>The loop \<open>for idx, val in enumerate(regs): addr2word[start + idx] = int(val) & 0xFFFF\<close>.\<close>

fun store_regs :: "int \<Rightarrow> int list \<Rightarrow> (int \<times> int) list \<Rightarrow> (int \<times> int) list" where
  "store_regs a [] addr2word = addr2word"
| "store_regs a (val # regs') addr2word =
     store_regs (a + 1) regs' (AList.update a (val AND 0xFFFF) addr2word)"

fun read_plan :: "'d transport \<Rightarrow> plan list \<Rightarrow> string \<Rightarrow> (int \<times> int) list \<Rightarrow> 'd world
    \<Rightarrow> (exn + (int \<times> int) list) \<times> 'd world" where
  "read_plan tr [] func' addr2word w = (Inr addr2word, w)"
| "read_plan tr ((start, qty, group') # plan') func' addr2word w =
     (case perform tr (if func' = ''holding'' then ReadHolding start qty else ReadInput start qty) w of
        (Inl e, w') \<Rightarrow> (Inl e, w')
      | (Inr regs', w') \<Rightarrow> read_plan tr plan' func' (store_regs start regs' addr2word) w')"

section \<open>refresh\_cache\<close>

text \<open>The loop \<open>for func, plan in plans: all_words[func] = await read_plan(...)\<close>.\<close>

fun read_plans :: "'d transport \<Rightarrow> (string \<times> plan list) list \<Rightarrow> (string \<times> (int \<times> int) list) list
    \<Rightarrow> 'd world \<Rightarrow> (exn + (string \<times> (int \<times> int) list) list) \<times> 'd world" where
  "read_plans tr [] all_words w = (Inr all_words, w)"
| "read_plans tr ((func', plan') # plans) all_words w =
     (case read_plan tr plan' func' [] w of
        (Inl e, w') \<Rightarrow> (Inl e, w')
      | (Inr addr2word, w') \<Rightarrow> read_plans tr plans (AList.update func' addr2word all_words) w')"

text \<open>The key \<open>spec.field_name or spec.id\<close> under which a spec's value is stored.\<close>

definition out_key :: "RegSpec \<Rightarrow> string" where
  "out_key spec = (if field_name spec = [] then id_field spec else field_name spec)"

text \<open>
  The body of the loop over \<open>STATE.regs\<close> up to the rounded value: a missing function
  bank or a missing address raises \<open>KeyError\<close>.
\<close>

definition decode_spec :: "float_ops \<Rightarrow> (string \<times> (int \<times> int) list) list \<Rightarrow> RegSpec \<Rightarrow> exn + real" where
  "decode_spec fo all_words spec =
     (case map_of all_words (if func spec = ''holding'' then ''holding'' else ''input'') of
        None \<Rightarrow> Inl KeyError
      | Some source \<Rightarrow>
          (let looked = map (\<lambda>off. map_of source (address spec + int off)) [0 ..< nat (count spec)] in
           if None \<in> set looked then Inl KeyError
           else
             (let words = map the looked;
                  raw = combine_words words (dtype spec) (byte_order spec)
              in case apply_scale_offset fo raw (multiply spec) (offset spec) of
                   Inl e \<Rightarrow> Inl e
                 | Inr val \<Rightarrow> Inr (round_decimals fo val))))"

text \<open>
  The loop that fills \<open>new_cache\<close>: \<open>m = new_cache.setdefault(spec.measurement, {})\<close>, then
  \<open>m[spec.field_name or spec.id] = val\<close>.
\<close>

fun build_cache :: "float_ops \<Rightarrow> (string \<times> (int \<times> int) list) list \<Rightarrow> RegSpec list \<Rightarrow> snapshot
    \<Rightarrow> exn + snapshot" where
  "build_cache fo all_words [] new_cache = Inr new_cache"
| "build_cache fo all_words (spec # specs) new_cache =
     (case decode_spec fo all_words spec of
        Inl e \<Rightarrow> Inl e
      | Inr val \<Rightarrow>
          (let m = (case map_of new_cache (measurement spec) of None \<Rightarrow> [] | Some m \<Rightarrow> m)
           in build_cache fo all_words specs
                (AList.update (measurement spec) (AList.update (out_key spec) val m) new_cache)))"

text \<open>
  Lines 178-184: when \<open>STATE.sol\<close> is \<open>None\<close> the client is created and assigned, and then
  connected; the assignment stands when the connection fails.
\<close>

definition ensure_connected :: "'d transport \<Rightarrow> AppState \<Rightarrow> 'd world
    \<Rightarrow> exn option \<times> client option \<times> 'd world" where
  "ensure_connected tr s w =
     (if sol s = None then
        (case perform tr Connect w of
           (Inl e, w') \<Rightarrow> (Some e, Some Client, w')
         | (Inr _, w') \<Rightarrow> (None, Some Client, w'))
      else (None, sol s, w))"

text \<open>Lines 178-188: connect when needed, then read every plan.\<close>

definition read_words :: "'d transport \<Rightarrow> (string \<times> plan list) list \<Rightarrow> AppState \<Rightarrow> 'd world
    \<Rightarrow> (exn + (string \<times> (int \<times> int) list) list) \<times> client option \<times> 'd world" where
  "read_words tr plans s w =
     (case ensure_connected tr s w of
        (Some e, sol', w1) \<Rightarrow> (Inl e, sol', w1)
      | (None, sol', w1) \<Rightarrow>
          (case read_plans tr plans [] w1 of (r, w2) \<Rightarrow> (r, sol', w2)))"

text \<open>
  The body of the \<open>try\<close> block up to the commit: its outcome is the new snapshot or the
  exception raised, with the client handle and the world it leaves.
\<close>

definition run_cycle :: "'d transport \<Rightarrow> float_ops \<Rightarrow> (string \<times> plan list) list \<Rightarrow> AppState \<Rightarrow> 'd world
    \<Rightarrow> (exn + snapshot) \<times> client option \<times> 'd world" where
  "run_cycle tr fo plans s w =
     (case read_words tr plans s w of
        (Inl e, sol', w') \<Rightarrow> (Inl e, sol', w')
      | (Inr all_words, sol', w') \<Rightarrow> (build_cache fo all_words (regs s) [], sol', w'))"

text \<open>Lines 169-175: the plans of the holding and of the input registers.\<close>

definition make_plans :: "RegSpec list \<Rightarrow> (string \<times> plan list) list" where
  "make_plans rs =
     (let holding = filter (\<lambda>s. func s = ''holding'') rs;
          inputr = filter (\<lambda>s. func s = ''input'') rs
      in (if holding \<noteq> [] then [(''holding'', merge_ranges holding)] else [])
         @ (if inputr \<noteq> [] then [(''input'', merge_ranges inputr)] else []))"

text \<open>
  \<open>refresh_cache\<close>. \<open>now_loop\<close> is the time read on entry and \<open>now_commit\<close> the time read
  at the commit. The result is the exception that leaves the function (one that the
  \<open>except\<close> clause does not name), the next state and the world.
\<close>

definition refresh_cache :: "config \<Rightarrow> 'd transport \<Rightarrow> float_ops \<Rightarrow> real \<Rightarrow> real \<Rightarrow> AppState \<Rightarrow> 'd world
    \<Rightarrow> exn option \<times> AppState \<times> 'd world" where
  "refresh_cache cfg tr fo now_loop now_commit s w =
     (if breaker_open_until s > now_loop then (None, s, w)
      else
        (case run_cycle tr fo (make_plans (regs s)) s w of
           (Inr new_cache, sol', w') \<Rightarrow>
             (None, s\<lparr>sol := sol', cache := new_cache, cache_ts := now_commit, breaker_failures := 0\<rparr>, w')
         | (Inl e, sol', w') \<Rightarrow>
             if caught e then
               (let failures = breaker_failures s + 1 in
                (None,
                 s\<lparr>sol := sol', breaker_failures := failures,
                   breaker_open_until :=
                     (if failures \<ge> CB_FAIL_LIMIT cfg then now_loop + CB_OPEN_SECONDS cfg
                      else breaker_open_until s)\<rparr>,
                 w'))
             else (Some e, s\<lparr>sol := sol'\<rparr>, w')))"

section \<open>handle\_get\<close>




section \<open>Notions used in the statements\<close>

text \<open>The addresses a spec occupies and the addresses a plan reads.\<close>

definition spec_addrs :: "RegSpec \<Rightarrow> int set" where
  "spec_addrs s = {address s .. address s + count s - 1}"

definition plan_addrs :: "plan \<Rightarrow> int set" where
  "plan_addrs p = (case p of (start, qty, group') \<Rightarrow> {start .. start + qty - 1})"





text \<open>The value a snapshot holds under a measurement and a field key.\<close>

definition snapshot_get :: "snapshot \<Rightarrow> string \<Rightarrow> string \<Rightarrow> real option" where
  "snapshot_get c meas key = (case map_of c meas of None \<Rightarrow> None | Some m \<Rightarrow> map_of m key)"

section \<open>Concrete inputs\<close>

text \<open>
  A holding register of type \<open>uint16\<close> with multiplier 1 and offset 0; the default
  breaker settings; float operations that are exact (on the small integers used below
  they agree with the floats); three devices: one that answers a read of \<open>qty\<close> words
  at \<open>start\<close> with the words \<open>start + 1, start + 2, ...\<close>, one whose every call raises
  \<open>OSError\<close>, and one that answers every read with 65 words of which the first is 1.
\<close>

definition ex_reg :: "string \<Rightarrow> int \<Rightarrow> int \<Rightarrow> string \<Rightarrow> string \<Rightarrow> RegSpec" where
  "ex_reg i a c m f = \<lparr>id_field = i, address = a, count = c, func = ''holding'', dtype = ''uint16'',
     byte_order = ''AB'', multiply = 1, offset = 0, measurement = m, field_name = f, tags = []\<rparr>"

definition ex_cfg :: config where
  "ex_cfg = \<lparr>CB_FAIL_LIMIT = 3, CB_OPEN_SECONDS = 30\<rparr>"

definition exact_ops :: float_ops where
  "exact_ops = \<lparr>scale = (\<lambda>raw m off. of_int raw * m + off), round_decimals = (\<lambda>v. v)\<rparr>"

definition ex_world :: "unit world" where
  "ex_world = \<lparr>device = (), trace = []\<rparr>"

definition counting_device :: "unit transport" where
  "counting_device c d =
     (case c of
        Connect \<Rightarrow> (Inr [], d)
      | ReadHolding a q \<Rightarrow> (Inr (map (\<lambda>i. a + int i + 1) [0 ..< nat q]), d)
      | ReadInput a q \<Rightarrow> (Inr (map (\<lambda>i. a + int i + 1) [0 ..< nat q]), d))"

definition failing_device :: "unit transport" where
  "failing_device c d = (Inl OSError, d)"

definition wide_device :: "unit transport" where
  "wide_device c d = (Inr (1 # replicate 64 0), d)"

definition st_open :: AppState where
  "st_open = \<lparr>regs = [ex_reg ''a'' 0 1 ''deye'' ''f''], cache = [(''deye'', [(''f'', 1)])],
     cache_ts = 4, sol = Some Client, breaker_failures = 3, breaker_open_until = 35\<rparr>"

definition st_closed :: AppState where
  "st_closed = \<lparr>regs = [ex_reg ''a'' 0 1 ''deye'' ''f''], cache = [(''deye'', [(''f'', 1)])],
     cache_ts = 4, sol = Some Client, breaker_failures = 2, breaker_open_until = 0\<rparr>"


definition st_wide :: AppState where
  "st_wide = \<lparr>regs = [ex_reg ''w'' 0 65 ''deye'' ''f''], cache = [],
     cache_ts = 0, sol = Some Client, breaker_failures = 0, breaker_open_until = 0\<rparr>"

definition st_three :: AppState where
  "st_three = \<lparr>regs = [ex_reg ''a'' 0 1 ''deye'' ''f'', ex_reg ''b'' 1 1 ''deye'' ''f'',
       ex_reg ''c'' 2 1 ''deye'' ''f''],
     cache = [], cache_ts = 0, sol = Some Client, breaker_failures = 0, breaker_open_until = 0\<rparr>"

definition st_mixed :: AppState where
  "st_mixed = \<lparr>regs = [ex_reg ''a'' 0 1 ''deye'' ''f'', ex_reg ''b'' 1 1 ''deye'' ''f'',
       ex_reg ''c'' 2 1 ''deye'' ''g''],
     cache = [], cache_ts = 0, sol = Some Client, breaker_failures = 0, breaker_open_until = 0\<rparr>"

section \<open>Facts about merge\_ranges\<close>

lemma extend_group_result:
  "extend_group st e g xs = (e', g', r') \<Longrightarrow>
     \<exists>taken. g' = g @ taken \<and> xs = taken @ r' \<and> e \<le> e'
       \<and> (\<forall>t\<in>set taken. address t + count t - 1 \<le> e')
       \<and> e' \<in> insert e ((\<lambda>t. address t + count t - 1) ` set taken)"
proof (induction xs arbitrary: e g)
  case Nil
  then show ?case by simp
next
  case (Cons nxt rest)
  let ?ne = "address nxt + count nxt - 1"
  show ?case
  proof (cases "address nxt \<le> e + 2 \<and> (?ne - st + 1) \<le> MAX_QTY")
    case True
    with Cons.prems have "extend_group st (max e ?ne) (g @ [nxt]) rest = (e', g', r')"
      by (simp add: Let_def)
    from Cons.IH [OF this] obtain taken where t:
      "g' = (g @ [nxt]) @ taken" "rest = taken @ r'" "max e ?ne \<le> e'"
      "\<forall>t\<in>set taken. address t + count t - 1 \<le> e'"
      "e' \<in> insert (max e ?ne) ((\<lambda>t. address t + count t - 1) ` set taken)"
      by blast
    have "e' \<in> insert e ((\<lambda>t. address t + count t - 1) ` set (nxt # taken))"
      using t(5) by (auto simp: max_def split: if_splits)
    with t show ?thesis
      by (intro exI [of _ "nxt # taken"]) auto
  next
    case False
    with Cons.prems have "e' = e" "g' = g" "r' = nxt # rest"
      by (auto simp add: Let_def)
    then show ?thesis by simp
  qed
qed

lemma merge_loop_covers:
  "sorted (map address xs) \<Longrightarrow> x \<in> set xs \<Longrightarrow>
     \<exists>p\<in>set (merge_loop xs). case p of (st, q, g) \<Rightarrow>
        x \<in> set g \<and> st \<le> address x \<and> address x + count x - 1 \<le> st + q - 1"
proof (induction xs rule: merge_loop.induct)
  case 1
  then show ?case by simp
next
  case (2 s rest)
  obtain e' g' r' where eg: "extend_group (address s) (address s + count s - 1) [s] rest = (e', g', r')"
    by (cases "extend_group (address s) (address s + count s - 1) [s] rest") auto
  from extend_group_result [OF eg] obtain taken where t:
    "g' = [s] @ taken" "rest = taken @ r'" "address s + count s - 1 \<le> e'"
    "\<forall>t\<in>set taken. address t + count t - 1 \<le> e'"
    by blast
  have ml: "merge_loop (s # rest) = (address s, e' - address s + 1, g') # merge_loop r'"
    using eg by simp
  have sorted_r: "sorted (map address r')"
    using "2.prems"(1) t(2) by (simp add: sorted_append)
  have le_all: "\<forall>y\<in>set rest. address s \<le> address y"
    using "2.prems"(1) by simp
  consider "x = s" | "x \<in> set taken" | "x \<in> set r'"
    using "2.prems"(2) t(2) by auto
  then show ?case
  proof cases
    case 1
    then show ?thesis unfolding ml using t by simp
  next
    case 2
    then have "address s \<le> address x" using le_all t(2) by simp
    with 2 show ?thesis unfolding ml using t by simp
  next
    case 3
    from "2.IH" [OF eg [symmetric] refl sorted_r 3] show ?thesis
      unfolding ml by simp
  qed
qed


lemma merge_loop_members:
  "sorted (map address xs) \<Longrightarrow> p \<in> set (merge_loop xs) \<Longrightarrow> m \<in> set (snd (snd p)) \<Longrightarrow>
     fst p \<le> address m \<and> address m + count m \<le> fst p + fst (snd p)"
proof (induction xs rule: merge_loop.induct)
  case 1
  then show ?case by simp
next
  case (2 s rest)
  obtain e' g' r' where eg: "extend_group (address s) (address s + count s - 1) [s] rest = (e', g', r')"
    by (cases "extend_group (address s) (address s + count s - 1) [s] rest") auto
  from extend_group_result [OF eg] obtain taken where t:
    "g' = [s] @ taken" "rest = taken @ r'" "address s + count s - 1 \<le> e'"
    "\<forall>t\<in>set taken. address t + count t - 1 \<le> e'"
    by blast
  have ml: "merge_loop (s # rest) = (address s, e' - address s + 1, g') # merge_loop r'"
    using eg by simp
  have sorted_r: "sorted (map address r')"
    using "2.prems"(1) t(2) by (simp add: sorted_append)
  have le_all: "\<forall>y\<in>set rest. address s \<le> address y"
    using "2.prems"(1) by simp
  from "2.prems"(2) consider "p = (address s, e' - address s + 1, g')" | "p \<in> set (merge_loop r')"
    unfolding ml by auto
  then show ?case
  proof cases
    case 1
    with "2.prems"(3) t(1) consider "m = s" | "m \<in> set taken" by auto
    then show ?thesis
    proof cases
      case 1
      with \<open>p = (address s, e' - address s + 1, g')\<close> t(3) show ?thesis by simp
    next
      case 2
      then have "address s \<le> address m" using le_all t(2) by simp
      with 2 \<open>p = (address s, e' - address s + 1, g')\<close> t(4) show ?thesis by fastforce
    qed
  next
    case 2
    from "2.IH" [OF eg [symmetric] refl sorted_r 2 "2.prems"(3)] show ?thesis .
  qed
qed








section \<open>Facts about the snapshot and the response\<close>

lemma snapshot_get_write:
  "snapshot_get
     (AList.update meas (AList.update key v (case map_of c meas of None \<Rightarrow> [] | Some m \<Rightarrow> m)) c)
     meas' key'
   = (if meas' = meas \<and> key' = key then Some v else snapshot_get c meas' key')"
  by (auto simp: snapshot_get_def update_conv' split: option.splits)

lemma build_cache_untouched:
  "build_cache fo aw rs acc = Inr snap \<Longrightarrow>
   \<forall>z\<in>set rs. \<not> (measurement z = meas \<and> out_key z = key) \<Longrightarrow>
   snapshot_get snap meas key = snapshot_get acc meas key"
proof (induction rs arbitrary: acc)
  case Nil
  then show ?case by simp
next
  case (Cons r rs)
  from Cons.prems(1) obtain v where v: "decode_spec fo aw r = Inr v"
    by (auto split: sum.splits)
  let ?acc = "AList.update (measurement r)
      (AList.update (out_key r) v (case map_of acc (measurement r) of None \<Rightarrow> [] | Some m \<Rightarrow> m)) acc"
  have "build_cache fo aw rs ?acc = Inr snap"
    using Cons.prems(1) v by (simp add: Let_def)
  from Cons.IH [OF this] Cons.prems(2)
  have "snapshot_get snap meas key = snapshot_get ?acc meas key" by simp
  also have "\<dots> = snapshot_get acc meas key"
    using Cons.prems(2) by (auto simp: snapshot_get_write)
  finally show ?case .
qed

lemma build_cache_last_write:
  "build_cache fo aw (before @ spec # after) acc = Inr snap \<Longrightarrow>
   \<forall>z\<in>set after. \<not> (measurement z = measurement spec \<and> out_key z = out_key spec) \<Longrightarrow>
   \<exists>v. decode_spec fo aw spec = Inr v \<and> snapshot_get snap (measurement spec) (out_key spec) = Some v"
proof (induction before arbitrary: acc)
  case Nil
  from Nil(1) obtain v where v: "decode_spec fo aw spec = Inr v"
    by (auto split: sum.splits)
  let ?acc = "AList.update (measurement spec)
      (AList.update (out_key spec) v (case map_of acc (measurement spec) of None \<Rightarrow> [] | Some m \<Rightarrow> m)) acc"
  have "build_cache fo aw after ?acc = Inr snap"
    using Nil(1) v by (simp add: Let_def)
  from build_cache_untouched [OF this Nil(2)]
  have "snapshot_get snap (measurement spec) (out_key spec) = Some v"
    by (simp add: snapshot_get_write)
  with v show ?case by blast
next
  case (Cons r before)
  from Cons.prems(1) obtain v where v: "decode_spec fo aw r = Inr v"
    by (auto split: sum.splits)
  let ?acc = "AList.update (measurement r)
      (AList.update (out_key r) v (case map_of acc (measurement r) of None \<Rightarrow> [] | Some m \<Rightarrow> m)) acc"
  have "build_cache fo aw (before @ spec # after) ?acc = Inr snap"
    using Cons.prems(1) v by (simp add: Let_def)
  from Cons.IH [OF this Cons.prems(2)] show ?case .
qed




section \<open>Bit-level facts about 16-bit words\<close>

lemma mask16_take_bit: "(w::int) AND 0xFFFF = take_bit 16 w"
  by (simp add: take_bit_eq_mask mask_eq_exp_minus_1)

lemma masked_bit15: "((w::int) AND 0xFFFF) AND 0x8000 \<noteq> 0 \<longleftrightarrow> bit w 15"
proof -
  have "((w::int) AND 0xFFFF) AND 2 ^ 15 \<noteq> 0 \<longleftrightarrow> bit (take_bit 16 w) 15"
    unfolding mask16_take_bit by (simp only: and_exp_eq_0_iff_not_bit) simp
  then show ?thesis by (simp add: bit_take_bit_iff)
qed

lemma high_low_disjoint:
  "push_bit 16 (take_bit 16 (a::int)) OR take_bit 16 b = take_bit 16 a * 65536 + take_bit 16 b"
proof -
  have "push_bit 16 (take_bit 16 a) + take_bit 16 b = push_bit 16 (take_bit 16 a) OR take_bit 16 b"
    by (rule disjunctive_add_eq_or) (simp add: bit_eq_iff bit_simps)
  then show ?thesis by (simp add: push_bit_eq_mult)
qed

lemma sign_bit31:
  assumes "0 \<le> (v::int)" and "v < 2 ^ 32"
  shows "v AND 0x80000000 \<noteq> 0 \<longleftrightarrow> 2 ^ 31 \<le> v"
proof -
  have "v AND 2 ^ 31 \<noteq> 0 \<longleftrightarrow> bit v 31"
    by (simp only: and_exp_eq_0_iff_not_bit) simp
  also have "\<dots> \<longleftrightarrow> odd (v div 2 ^ 31)"
    by (simp add: bit_iff_odd)
  also have "\<dots> \<longleftrightarrow> 2 ^ 31 \<le> v"
  proof -
    have "v div 2 ^ 31 = 0 \<or> v div 2 ^ 31 = 1" using assms by auto
    moreover have "v div 2 ^ 31 = 0 \<longleftrightarrow> v < 2 ^ 31" using assms by auto
    ultimately show ?thesis by auto
  qed
  finally show ?thesis by simp
qed

lemma combine_two_raw:
  "combine_words [w0, w1] dt bo =
     (let hi = take_bit 16 (if bo = ''CDAB'' then w1 else w0);
          lo = take_bit 16 (if bo = ''CDAB'' then w0 else w1);
          val = push_bit 16 hi OR lo
      in if dt = ''int32'' \<and> val AND 0x80000000 \<noteq> 0 then val - 0x100000000 else val)"
  by (cases "bo = ''CDAB''") (simp_all add: combine_words_def Let_def mask16_take_bit)

section \<open>Decoding: the claims about combine\_words\<close>

text \<open>
  C6 (as amended). With byte order ABCD the first word is the high word, so the words
  \<open>[0x0000, 0x8000]\<close> combine to \<open>0x00008000 = 32768\<close>, whose bit 31 is clear: as
  \<open>int32\<close> the result is 32768. The value \<open>-2147483648\<close> is the result for the words
  in the other order, \<open>[0x8000, 0x0000]\<close>.
\<close>

theorem combine_int32_abcd_low_word_8000:
  "combine_words [0x0000, 0x8000] ''int32'' ''ABCD'' = 32768 \<and>
   combine_words [0x8000, 0x0000] ''int32'' ''ABCD'' = - 2147483648"
  by (simp add: combine_words_def)

text \<open>
  C6 (as stated) fails: \<open>combine_words [0x0000, 0x8000] ''int32'' ''ABCD''\<close> is not
  \<open>-2147483648\<close>.
\<close>

theorem combine_int32_abcd_counterexample:
  "combine_words [0x0000, 0x8000] ''int32'' ''ABCD'' \<noteq> - 2147483648"
  by (simp add: combine_words_def)

text \<open>
  C7 (as stated) fails: the claim has no exception for the dtype, but with dtype
  \<open>int32\<close> and byte order ABCD the words \<open>[0x8000, 0x0000]\<close> are not returned as
  \<open>(high << 16) | low = 2147483648\<close>: lines 109-111 subtract \<open>0x100000000\<close>.
\<close>

theorem combine_two_words_counterexample:
  "combine_words [0x8000, 0x0000] ''int32'' ''ABCD''
     \<noteq> push_bit 16 (0x8000 AND 0xFFFF) OR (0x0000 AND 0xFFFF)"
  by (simp add: combine_words_def)

text \<open>
  C7 (as amended). For two words \<open>[w0, w1]\<close>, byte order CDAB takes \<open>w1\<close> as the high
  word and \<open>w0\<close> as the low word, every other byte order takes \<open>w0\<close> as high and \<open>w1\<close>
  as low (each masked to 16 bits); the combined value is \<open>(high << 16) | low\<close>, which is
  \<open>high * 65536 + low\<close>, and it is returned as it is, except that dtype \<open>int32\<close> returns
  a combined value with bit 31 set minus \<open>0x100000000\<close> (two's complement). In
  particular \<open>combine([0x0001, 0x0000], uint32, CDAB) = 1\<close>.
\<close>

theorem combine_two_words_order:
  "combine_words [w0, w1] dt bo =
     (let high = (if bo = ''CDAB'' then w1 else w0) AND 0xFFFF;
          low = (if bo = ''CDAB'' then w0 else w1) AND 0xFFFF;
          val = push_bit 16 high OR low
      in if dt = ''int32'' \<and> 2 ^ 31 \<le> val then val - 2 ^ 32 else val)
   \<and> push_bit 16 ((if bo = ''CDAB'' then w1 else w0) AND 0xFFFF)
        OR ((if bo = ''CDAB'' then w0 else w1) AND 0xFFFF)
      = ((if bo = ''CDAB'' then w1 else w0) mod 65536) * 65536
        + (if bo = ''CDAB'' then w0 else w1) mod 65536
   \<and> combine_words [0x0001, 0x0000] ''uint32'' ''CDAB'' = 1"
proof -
  define hi where "hi = take_bit 16 (if bo = ''CDAB'' then w1 else w0)"
  define lo where "lo = take_bit 16 (if bo = ''CDAB'' then w0 else w1)"
  define val where "val = push_bit 16 hi OR lo"
  have hl: "0 \<le> hi" "hi < 65536" "0 \<le> lo" "lo < 65536"
    unfolding hi_def lo_def by (simp_all add: take_bit_eq_mod)
  have sum: "val = hi * 65536 + lo"
    unfolding val_def hi_def lo_def by (rule high_low_disjoint)
  have range: "0 \<le> val" "val < 2 ^ 32"
    unfolding sum using hl by auto
  have "combine_words [w0, w1] dt bo =
      (if dt = ''int32'' \<and> val AND 0x80000000 \<noteq> 0 then val - 0x100000000 else val)"
    unfolding combine_two_raw val_def hi_def lo_def by (simp add: Let_def)
  then have first: "combine_words [w0, w1] dt bo =
      (if dt = ''int32'' \<and> 2 ^ 31 \<le> val then val - 2 ^ 32 else val)"
    using sign_bit31 [OF range] by simp
  have second: "val = ((if bo = ''CDAB'' then w1 else w0) mod 65536) * 65536
        + (if bo = ''CDAB'' then w0 else w1) mod 65536"
    unfolding sum unfolding hi_def lo_def by (simp add: take_bit_eq_mod)
  have third: "combine_words [0x0001, 0x0000] ''uint32'' ''CDAB'' = 1"
    by (simp add: combine_words_def)
  from first second third show ?thesis
    unfolding val_def hi_def lo_def mask16_take_bit Let_def by blast
qed

text \<open>
  C8. For a single word \<open>[w]\<close> the result is \<open>w & 0xFFFF\<close>, except that dtype \<open>int16\<close>
  with bit 15 of \<open>w\<close> set gives \<open>(w & 0xFFFF) - 0x10000\<close>; whatever the byte order,
  \<open>0x8000\<close> decodes to \<open>-32768\<close> and \<open>0x7FFF\<close> to \<open>32767\<close> as \<open>int16\<close>.
\<close>

theorem combine_single_word:
  "combine_words [w] dt bo =
     (if dt = ''int16'' \<and> bit w 15 then (w AND 0xFFFF) - 0x10000 else w AND 0xFFFF)
   \<and> combine_words [0x8000] ''int16'' bo = - 32768
   \<and> combine_words [0x7FFF] ''int16'' bo = 32767"
  using masked_bit15 [of w] by (simp add: combine_words_def Let_def)

section \<open>Range planning: the claims about merge\_ranges\<close>




text \<open>
  C5. A spec whose count exceeds 120 is a member of a plan of \<open>merge_ranges\<close> that
  covers its full extent and whose quantity is at least its count; and no plan is
  narrower than its group needs: every member of every plan lies within the plan.
\<close>

theorem oversized_spec_is_covered:
  "(s \<in> set specs \<and> 120 < count s \<longrightarrow>
      (\<exists>p\<in>set (merge_ranges specs).
          s \<in> set (snd (snd p)) \<and> spec_addrs s \<subseteq> plan_addrs p \<and> count s \<le> fst (snd p)))
   \<and> (\<forall>p\<in>set (merge_ranges specs). \<forall>m\<in>set (snd (snd p)).
          fst p \<le> address m \<and> address m + count m \<le> fst p + fst (snd p))"
proof -
  have first: "\<exists>p\<in>set (merge_ranges specs).
      s \<in> set (snd (snd p)) \<and> spec_addrs s \<subseteq> plan_addrs p \<and> count s \<le> fst (snd p)"
    if "s \<in> set specs \<and> 120 < count s"
  proof -
    from that have "s \<in> set (sort_key address specs)" by simp
    from merge_loop_covers [OF _ this] obtain p where
      p: "p \<in> set (merge_ranges specs)"
         "case p of (st, q, g) \<Rightarrow> s \<in> set g \<and> st \<le> address s \<and> address s + count s - 1 \<le> st + q - 1"
      unfolding merge_ranges_def by auto
    then have "s \<in> set (snd (snd p)) \<and> spec_addrs s \<subseteq> plan_addrs p \<and> count s \<le> fst (snd p)"
      by (cases p) (auto simp: spec_addrs_def plan_addrs_def)
    with p(1) show ?thesis by blast
  qed
  have second: "fst p \<le> address m \<and> address m + count m \<le> fst p + fst (snd p)"
    if "p \<in> set (merge_ranges specs)" and "m \<in> set (snd (snd p))" for p m
    using that unfolding merge_ranges_def by (intro merge_loop_members) simp_all
  from first second show ?thesis by blast
qed

theorem oversized_spec_is_covered_witness:
  "ex_reg ''c'' 200 130 ''deye'' ''h''
     \<in> set [ex_reg ''a'' 10 2 ''deye'' ''f'', ex_reg ''b'' 0 1 ''deye'' ''g'', ex_reg ''c'' 200 130 ''deye'' ''h'']
   \<and> 120 < count (ex_reg ''c'' 200 130 ''deye'' ''h'')
   \<and> (\<exists>p\<in>set (merge_ranges [ex_reg ''a'' 10 2 ''deye'' ''f'', ex_reg ''b'' 0 1 ''deye'' ''g'',
          ex_reg ''c'' 200 130 ''deye'' ''h'']).
        ex_reg ''c'' 200 130 ''deye'' ''h'' \<in> set (snd (snd p))
        \<and> spec_addrs (ex_reg ''c'' 200 130 ''deye'' ''h'') \<subseteq> plan_addrs p
        \<and> count (ex_reg ''c'' 200 130 ''deye'' ''h'') \<le> fst (snd p))
   \<and> merge_ranges [ex_reg ''a'' 10 2 ''deye'' ''f'', ex_reg ''b'' 0 1 ''deye'' ''g'',
          ex_reg ''c'' 200 130 ''deye'' ''h''] ! 2
      = (200, 130, [ex_reg ''c'' 200 130 ''deye'' ''h''])"
proof -
  let ?c = "ex_reg ''c'' 200 130 ''deye'' ''h''"
  let ?S = "[ex_reg ''a'' 10 2 ''deye'' ''f'', ex_reg ''b'' 0 1 ''deye'' ''g'', ?c]"
  have mem: "?c \<in> set ?S" by simp
  have big: "120 < count ?c" by (simp add: ex_reg_def)
  have third: "merge_ranges ?S ! 2 = (200, 130, [?c])"
    by (simp add: merge_ranges_def ex_reg_def MAX_QTY_def)
  from oversized_spec_is_covered [of ?c ?S] mem big
  have "\<exists>p\<in>set (merge_ranges ?S).
      ?c \<in> set (snd (snd p)) \<and> spec_addrs ?c \<subseteq> plan_addrs p \<and> count ?c \<le> fst (snd p)"
    by blast
  with mem big third show ?thesis by blast
qed

section \<open>The poll cycle: the claims about refresh\_cache\<close>

text \<open>
  C1. On a tick at which the breaker is open (the time read on entry is strictly less
  than \<open>breaker_open_until\<close>), \<open>refresh_cache\<close> returns at once without an exception: the
  state is the one it was given (cache, cache timestamp, failure count and
  \<open>breaker_open_until\<close> included) and so is the world, so that no call to the transport,
  connect or read, was made.
\<close>

theorem breaker_open_tick_is_noop:
  "now_loop < breaker_open_until s \<Longrightarrow>
     refresh_cache cfg tr fo now_loop now_commit s w = (None, s, w)"
  by (simp add: refresh_cache_def)

theorem breaker_open_tick_is_noop_witness:
  "(10::real) < breaker_open_until st_open
   \<and> refresh_cache ex_cfg failing_device exact_ops 10 11 st_open ex_world = (None, st_open, ex_world)"
proof -
  have h: "(10::real) < breaker_open_until st_open" by (simp add: st_open_def)
  from breaker_open_tick_is_noop [OF h] h show ?thesis by blast
qed

text \<open>
  C2 (as stated) fails. The register map holds one spec of 65 words and the device
  answers the read with 65 words of which the first is 1, so that the raw value is
  \<open>2^1024\<close> and \<open>float(raw)\<close> raises \<open>OverflowError\<close>. The cycle fails, the \<open>except\<close>
  clause does not name that exception, and the failure count is not incremented.
\<close>

theorem uncounted_failure_counterexample:
  "\<not> (10::real) < breaker_open_until st_wide
   \<and> fst (run_cycle wide_device exact_ops (make_plans (regs st_wide)) st_wide ex_world) = Inl OverflowError
   \<and> breaker_failures (fst (snd (refresh_cache ex_cfg wide_device exact_ops 10 11 st_wide ex_world)))
       \<noteq> breaker_failures st_wide + 1"
  by code_simp

text \<open>
  C2 (as amended). On a tick at which the breaker is not open: a successful cycle
  sets the failure count to 0 and leaves \<open>breaker_open_until\<close> as it was; a cycle that
  fails with one of the exceptions the \<open>except\<close> clause names (\<open>V5FrameError\<close>,
  \<open>NoSocketAvailableError\<close>, \<open>TimeoutError\<close>, \<open>KeyError\<close>, \<open>OSError\<close>) increments the failure
  count by 1, and sets \<open>breaker_open_until\<close> to the time read on entry plus
  \<open>CB_OPEN_SECONDS\<close> exactly when the incremented count is at least \<open>CB_FAIL_LIMIT\<close>
  (it is left as it was otherwise).
\<close>

theorem breaker_state_machine:
  assumes "\<not> now_loop < breaker_open_until s"
    and "outcome = fst (run_cycle tr fo (make_plans (regs s)) s w)"
    and "s' = fst (snd (refresh_cache cfg tr fo now_loop now_commit s w))"
  shows "(\<forall>new_cache. outcome = Inr new_cache \<longrightarrow>
            breaker_failures s' = 0 \<and> breaker_open_until s' = breaker_open_until s)
       \<and> (\<forall>e. outcome = Inl e \<and> caught e \<longrightarrow>
            breaker_failures s' = breaker_failures s + 1
            \<and> breaker_open_until s' =
                (if CB_FAIL_LIMIT cfg \<le> breaker_failures s + 1
                 then now_loop + CB_OPEN_SECONDS cfg else breaker_open_until s))"
  using assms
  by (cases "run_cycle tr fo (make_plans (regs s)) s w")
     (auto simp: refresh_cache_def Let_def split: sum.splits)

theorem breaker_state_machine_witness:
  "\<not> (10::real) < breaker_open_until st_closed
   \<and> fst (run_cycle failing_device exact_ops (make_plans (regs st_closed)) st_closed ex_world) = Inl OSError
   \<and> caught OSError
   \<and> breaker_failures (fst (snd (refresh_cache ex_cfg failing_device exact_ops 10 11 st_closed ex_world))) = 3
   \<and> breaker_open_until (fst (snd (refresh_cache ex_cfg failing_device exact_ops 10 11 st_closed ex_world))) = 40"
proof -
  have h1: "\<not> (10::real) < breaker_open_until st_closed" by (simp add: st_closed_def)
  have h2: "fst (run_cycle failing_device exact_ops (make_plans (regs st_closed)) st_closed ex_world) = Inl OSError"
    by code_simp
  have h3: "caught OSError" by simp
  from breaker_state_machine [OF h1 refl refl, of failing_device exact_ops ex_world ex_cfg 11] h2 h3
  have "breaker_failures (fst (snd (refresh_cache ex_cfg failing_device exact_ops 10 11 st_closed ex_world)))
          = breaker_failures st_closed + 1
        \<and> breaker_open_until (fst (snd (refresh_cache ex_cfg failing_device exact_ops 10 11 st_closed ex_world)))
          = (if CB_FAIL_LIMIT ex_cfg \<le> breaker_failures st_closed + 1
             then 10 + CB_OPEN_SECONDS ex_cfg else breaker_open_until st_closed)"
    by blast
  then have "breaker_failures (fst (snd (refresh_cache ex_cfg failing_device exact_ops 10 11 st_closed ex_world))) = 3
        \<and> breaker_open_until (fst (snd (refresh_cache ex_cfg failing_device exact_ops 10 11 st_closed ex_world))) = 40"
    by (simp add: st_closed_def ex_cfg_def)
  with h1 h2 h3 show ?thesis by blast
qed




text \<open>
  C9 (as stated) fails. The register list holds three specs \<open>a\<close>, \<open>b\<close>, \<open>c\<close>, in this
  order, with the same measurement \<open>deye\<close> and the same field name \<open>f\<close>, at the
  addresses 0, 1 and 2, where the device holds the words 1, 2 and 3. For the pair of
  \<open>a\<close> and \<open>b\<close> the later spec is \<open>b\<close>, whose decoded value is 2, but the snapshot of the
  successful cycle holds 3 under \<open>deye\<close> and \<open>f\<close>: the value of \<open>c\<close>.
\<close>

theorem later_of_pair_counterexample:
  "regs st_three = [ex_reg ''a'' 0 1 ''deye'' ''f'', ex_reg ''b'' 1 1 ''deye'' ''f'', ex_reg ''c'' 2 1 ''deye'' ''f'']
   \<and> fst (read_words counting_device (make_plans (regs st_three)) st_three ex_world)
       = Inr [(''holding'', [(0, 1), (1, 2), (2, 3)])]
   \<and> decode_spec exact_ops [(''holding'', [(0, 1), (1, 2), (2, 3)])] (ex_reg ''b'' 1 1 ''deye'' ''f'') = Inr 2
   \<and> fst (refresh_cache ex_cfg counting_device exact_ops 10 11 st_three ex_world) = None
   \<and> snapshot_get (cache (fst (snd (refresh_cache ex_cfg counting_device exact_ops 10 11 st_three ex_world))))
        ''deye'' ''f'' = Some 3"
  by code_simp

text \<open>
  C9 (as amended). In a successful cycle (the breaker is not open, the reads give the
  word maps \<open>all_words\<close> and every spec decodes), the committed snapshot holds, under the
  measurement of a spec and the key the code stores it under (its field name, or its
  id when the field name is empty), the decoded value of that spec, provided that no
  spec after it in the register list has the same measurement and key: the last write
  wins. For two specs with the same measurement and key that is the value of the later
  one when no further spec with that measurement and key follows it.
\<close>

theorem last_write_wins:
  assumes "\<not> now_loop < breaker_open_until s"
    and "fst (read_words tr (make_plans (regs s)) s w) = Inr all_words"
    and "build_cache fo all_words (regs s) [] = Inr new_cache"
    and "regs s = before @ spec # after"
    and "\<forall>z\<in>set after. \<not> (measurement z = measurement spec \<and> out_key z = out_key spec)"
  shows "cache (fst (snd (refresh_cache cfg tr fo now_loop now_commit s w))) = new_cache
       \<and> (\<exists>v. decode_spec fo all_words spec = Inr v
              \<and> snapshot_get new_cache (measurement spec) (out_key spec) = Some v)"
proof -
  obtain sol' w' where "read_words tr (make_plans (regs s)) s w = (Inr all_words, sol', w')"
    using assms(2) by (cases "read_words tr (make_plans (regs s)) s w") auto
  then have "run_cycle tr fo (make_plans (regs s)) s w = (Inr new_cache, sol', w')"
    using assms(3) by (simp add: run_cycle_def)
  then have "cache (fst (snd (refresh_cache cfg tr fo now_loop now_commit s w))) = new_cache"
    using assms(1) by (simp add: refresh_cache_def)
  moreover from build_cache_last_write [of fo all_words before spec after "[]" new_cache] assms(3,4,5)
  have "\<exists>v. decode_spec fo all_words spec = Inr v
              \<and> snapshot_get new_cache (measurement spec) (out_key spec) = Some v"
    by simp
  ultimately show ?thesis by blast
qed

theorem last_write_wins_witness:
  "\<not> (10::real) < breaker_open_until st_mixed
   \<and> fst (read_words counting_device (make_plans (regs st_mixed)) st_mixed ex_world)
       = Inr [(''holding'', [(0, 1), (1, 2), (2, 3)])]
   \<and> build_cache exact_ops [(''holding'', [(0, 1), (1, 2), (2, 3)])] (regs st_mixed) []
       = Inr [(''deye'', [(''f'', 2), (''g'', 3)])]
   \<and> regs st_mixed = [ex_reg ''a'' 0 1 ''deye'' ''f''] @ ex_reg ''b'' 1 1 ''deye'' ''f'' # [ex_reg ''c'' 2 1 ''deye'' ''g'']
   \<and> out_key (ex_reg ''c'' 2 1 ''deye'' ''g'') \<noteq> out_key (ex_reg ''b'' 1 1 ''deye'' ''f'')
   \<and> decode_spec exact_ops [(''holding'', [(0, 1), (1, 2), (2, 3)])] (ex_reg ''b'' 1 1 ''deye'' ''f'') = Inr 2
   \<and> snapshot_get (cache (fst (snd (refresh_cache ex_cfg counting_device exact_ops 10 11 st_mixed ex_world))))
        ''deye'' ''f'' = Some 2"
proof -
  let ?aw = "[(''holding'', [(0, 1), (1, 2), (2, 3)])] :: (string \<times> (int \<times> int) list) list"
  let ?b = "ex_reg ''b'' 1 1 ''deye'' ''f''"
  let ?c = "ex_reg ''c'' 2 1 ''deye'' ''g''"
  have h1: "\<not> (10::real) < breaker_open_until st_mixed" by (simp add: st_mixed_def)
  have h2: "fst (read_words counting_device (make_plans (regs st_mixed)) st_mixed ex_world) = Inr ?aw"
    by code_simp
  have h3: "build_cache exact_ops ?aw (regs st_mixed) [] = Inr [(''deye'', [(''f'', 2), (''g'', 3)])]"
    by code_simp
  have h4: "regs st_mixed = [ex_reg ''a'' 0 1 ''deye'' ''f''] @ ?b # [?c]"
    by (simp add: st_mixed_def)
  have ne: "out_key ?c \<noteq> out_key ?b" by (simp add: out_key_def ex_reg_def)
  then have h5: "\<forall>z\<in>set [?c]. \<not> (measurement z = measurement ?b \<and> out_key z = out_key ?b)"
    by simp
  have dec: "decode_spec exact_ops ?aw ?b = Inr 2" by code_simp
  have key: "measurement ?b = ''deye''" "out_key ?b = ''f''"
    by (simp_all add: out_key_def ex_reg_def)
  from last_write_wins [OF h1 h2 h3 h4 h5, of ex_cfg 11] dec
  have "snapshot_get (cache (fst (snd (refresh_cache ex_cfg counting_device exact_ops 10 11 st_mixed ex_world))))
        (measurement ?b) (out_key ?b) = Some 2"
    by auto
  then have "snapshot_get (cache (fst (snd (refresh_cache ex_cfg counting_device exact_ops 10 11 st_mixed ex_world))))
        ''deye'' ''f'' = Some 2"
    unfolding key .
  with h1 h2 h3 h4 ne dec show ?thesis by blast
qed

section \<open>The response: the claim about handle\_get\<close>



end
